theory Spec2Isabelle
  imports Complex_Main "HOL-Library.Word" "HOL-Library.Sublist"
begin

unbundle bit_operations_syntax

declare upt_rec_numeral [simp del]

chapter \<open>The model\<close>

section \<open>Machine types of the decoder\<close>

text \<open>
  \<open>uint32_t\<close> and \<open>uint16_t\<close> are words of that width. A C \<open>int\<close> that holds a
  DCS code, a polarity flag or the confirmation counter is a mathematical integer here:
  the values the decoder stores in them are 12-bit data, 0/1 flags and a counter that
  moves by one per bit boundary (a C \<open>int\<close> would take \<open>2^31 - 1\<close> consecutive matching
  bit boundaries to overflow). Pointers (the callback and its context) are addresses,
  with 0 for \<open>NULL\<close>.

  A \<open>float\<close> is a real number here: the rounding of the single-precision operations is
  not modelled. The results about the decoder's windows, its confirmation layer and the
  splitting of buffers use no property of the sample arithmetic at all, and the result on
  silence only that sums and products of zeros are zero, which holds for floats as well.
\<close>

type_synonym u32 = "32 word"
type_synonym u16 = "16 word"
type_synonym dcs_sample_t = real

section \<open>Recognised DCS codes (dcs\_decode.cc, lines 31--45 and 106--112)\<close>

definition DCS_VALID_CODES :: "u16 list" where
  "DCS_VALID_CODES =
    [ 19,  21,  22,  25,  26,  30,  35,  39,  41,  43,  44,  53,
      57,  58,  59,  60,
      76,  77,  78,  82,  85,  89,  90,  92,  99, 101, 106, 109,
     110, 114, 117, 122, 124,
     133, 138, 140, 147, 149, 150, 163, 164, 165, 166, 169, 170,
     173, 177, 179, 181, 182, 185, 188,
     198, 201, 205, 213, 217, 218, 227, 230, 233, 238, 244, 245, 249,
     265, 266, 267, 275, 281, 282, 293, 294, 298, 300, 301, 306, 308,
     309, 310,
     323, 326, 334, 339, 342, 346, 358, 373,
     390, 394, 404, 407, 409, 410, 428, 434, 436,
     451, 458, 467, 473, 474, 476, 483, 492]"

definition DCS_NUM_CODES :: nat where
  "DCS_NUM_CODES = length DCS_VALID_CODES"

text \<open>
  The loop of \<open>is_valid_dcs_code\<close>: compare the entries \<open>i, i + 1, ...\<close> below
  \<open>DCS_NUM_CODES\<close> with the code cast to \<open>uint16_t\<close>, returning at the first hit.
\<close>

fun valid_code_loop :: "u16 list \<Rightarrow> u16 \<Rightarrow> bool" where
  "valid_code_loop [] c = False"
| "valid_code_loop (v # vs) c = (if v = c then True else valid_code_loop vs c)"

definition is_valid_dcs_code :: "int \<Rightarrow> bool" where
  "is_valid_dcs_code code = valid_code_loop DCS_VALID_CODES (word_of_int code)"

section \<open>Golay (23,12) syndrome and syndrome table (dcs\_decode.cc, lines 51--104)\<close>

definition GOLAY_POLY :: u32 where
  "GOLAY_POLY = 0xC75"

definition GOLAY_SYN_INVALID :: u32 where
  "GOLAY_SYN_INVALID = 0xFFFFFFFF"

text \<open>The body of the loop of \<open>golay_syndrome\<close> at position \<open>i\<close>.\<close>

definition golay_step :: "nat \<Rightarrow> u32 \<Rightarrow> u32" where
  "golay_step i reg =
     (if (drop_bit i reg) AND 1 \<noteq> 0 then reg XOR (push_bit (i - 11) GOLAY_POLY) else reg)"

text \<open>\<open>for (i = 22; i >= 11; i--)\<close> runs the body at 22, 21, ..., 11.\<close>

definition golay_syndrome :: "u32 \<Rightarrow> u32" where
  "golay_syndrome word = (fold golay_step (rev [11..<23]) (word AND 0x7FFFFF)) AND 0x7FF"

text \<open>\<open>if (tbl[s] == GOLAY_SYN_INVALID) tbl[s] = e;\<close> with \<open>s = golay_syndrome(e)\<close>.\<close>

definition store_pattern :: "u32 \<Rightarrow> u32 list \<Rightarrow> u32 list" where
  "store_pattern e tbl =
     (let s = unat (golay_syndrome e)
      in if tbl ! s = GOLAY_SYN_INVALID then tbl[s := e] else tbl)"

text \<open>
  \<open>build_syndrome_table\<close> writes into the caller's array of 2048 entries; the model takes
  the array as it is on entry and returns it as it is on exit. The indices the function
  writes are below 2048: the fill loop by its bound, \<open>s\<close> because a syndrome has 11 bits.
\<close>

definition build_syndrome_table :: "u32 list \<Rightarrow> u32 list" where
  "build_syndrome_table tbl =
     (let tbl = fold (\<lambda>i t. t[i := GOLAY_SYN_INVALID]) [0..<2048] tbl;
          tbl = tbl[0 := 0];
          tbl = fold (\<lambda>i. store_pattern (push_bit i 1)) [0..<23] tbl;
          tbl = fold (\<lambda>i. fold (\<lambda>j.
                  store_pattern (push_bit i 1 OR push_bit j 1)) [i + 1..<23]) [0..<23] tbl;
          tbl = fold (\<lambda>i. fold (\<lambda>j. fold (\<lambda>k.
                  store_pattern (push_bit i 1 OR push_bit j 1 OR push_bit k 1))
                    [j + 1..<23]) [i + 1..<23]) [0..<23] tbl
      in tbl)"

text \<open>The Hamming weight of a 32-bit word: the number of its set bits.\<close>

definition hamming_weight :: "u32 \<Rightarrow> nat" where
  "hamming_weight w = length (filter (bit w) [0..<32])"

text \<open>
  Modelled from the spec: the systematic encoder is not part of the sources (the
  repository only decodes). The spec describes a codeword as the 12 data bits in
  positions 22..11 followed by the remainder of the polynomial long division of
  \<open>m * x^11\<close> by the generator: for the positions 22 down to 11, when the bit at the
  position is set, the generator shifted to that position is subtracted (XOR).
  \<open>poly_long_division n r\<close> treats the positions \<open>10 + n\<close> down to 11.
\<close>

fun poly_long_division :: "nat \<Rightarrow> u32 \<Rightarrow> u32" where
  "poly_long_division 0 r = r"
| "poly_long_division (Suc n) r =
     poly_long_division n (if bit r (11 + n) then r XOR push_bit n GOLAY_POLY else r)"

text \<open>
  Modelled from the spec: the codeword of a 12-bit message \<open>m\<close>, with \<open>m\<close> in the
  positions 22..11 and the remainder of the division in the positions 10..0.
\<close>

definition golay_encode :: "u32 \<Rightarrow> u32" where
  "golay_encode m = push_bit 11 m OR poly_long_division 12 (push_bit 11 m)"

subsection \<open>Auxiliary notions for the proofs about the code\<close>

text \<open>The word with exactly the listed bits set, and the XOR of a list of words.\<close>

fun setbits :: "nat list \<Rightarrow> u32" where
  "setbits [] = 0"
| "setbits (n # ns) = push_bit n 1 XOR setbits ns"

fun xor_list :: "u32 list \<Rightarrow> u32" where
  "xor_list [] = 0"
| "xor_list (x # xs) = x XOR xor_list xs"

text \<open>
  The patterns \<open>build_syndrome_table\<close> offers to the table after entry 0, in its order:
  one bit, two bits, three bits.
\<close>

definition error_patterns :: "u32 list" where
  "error_patterns =
     map (\<lambda>i. push_bit i 1) [0..<23]
     @ concat (map (\<lambda>i. map (\<lambda>j. push_bit i 1 OR push_bit j 1) [i + 1..<23]) [0..<23])
     @ concat (map (\<lambda>i. concat (map (\<lambda>j. map (\<lambda>k.
          push_bit i 1 OR push_bit j 1 OR push_bit k 1) [j + 1..<23]) [i + 1..<23])) [0..<23])"

text \<open>The 23-bit words of a given weight.\<close>

definition weight_class :: "nat \<Rightarrow> u32 set" where
  "weight_class k = {e. e < 0x800000 \<and> hamming_weight e = k}"

text \<open>
  The syndromes of the twelve data positions 11..22, and a search over the choices of at
  most six of them: \<open>md cs acc k\<close> holds when every way to add columns of \<open>cs\<close> to the
  \<open>k\<close> columns already summed in \<open>acc\<close> gives, unless no column is chosen at all, a sum
  whose weight plus the number of chosen columns is at least 7 (with more than six
  columns that is immediate). \<open>md_int\<close> is the same search on integers.
\<close>

definition golay_columns :: "u32 list" where
  "golay_columns = [1141, 1183, 1355, 1763, 435, 870, 1740, 493, 986, 1972, 797, 1594]"

fun md :: "u32 list \<Rightarrow> u32 \<Rightarrow> nat \<Rightarrow> bool" where
  "md [] acc k = (k = 0 \<or> 7 \<le> k + length (filter (bit acc) [0..<11]))"
| "md (c # cs) acc k = (md cs acc k \<and> (6 \<le> k \<or> md cs (acc XOR c) (Suc k)))"

fun md_int :: "int list \<Rightarrow> int \<Rightarrow> nat \<Rightarrow> bool" where
  "md_int [] acc k = (k = 0 \<or> 7 \<le> k + length (filter (bit acc) [0..<11]))"
| "md_int (c # cs) acc k = (md_int cs acc k \<and> (6 \<le> k \<or> md_int cs (acc XOR c) (Suc k)))"

section \<open>Decoding one window (dcs\_decode.cc, lines 119--133)\<close>

text \<open>
  \<open>try_decode_word\<close> returns 1 and fills \<open>*out_code\<close>, \<open>*out_inverted\<close>, or returns 0
  and leaves them alone: \<open>Some (code, inverted)\<close> and \<open>None\<close>.
\<close>

definition try_decode_word :: "u32 list \<Rightarrow> u32 \<Rightarrow> int \<Rightarrow> (int \<times> int) option" where
  "try_decode_word syn_tbl word polarity_inv =
     (let s = golay_syndrome word in
      if s < 2048 \<and> syn_tbl ! unat s \<noteq> GOLAY_SYN_INVALID then
        (let corrected = word XOR syn_tbl ! unat s;
             data = uint ((drop_bit 11 corrected) AND 0xFFF)
         in if data AND 0xE00 = 0 \<and> is_valid_dcs_code data
            then Some (data, polarity_inv) else None)
      else None)"

section \<open>Decoder state (dcs\_decode.cc, lines 138--210)\<close>

record dcs_decoder =
  lp_alpha :: real
  lp_state :: real
  lp_prev :: real
  samples_per_bit :: real
  bit_phase :: real
  bit_accum :: real
  window_a :: u32
  window_b :: u32
  last_code :: int
  last_inverted :: int
  confirm_count :: int
  syndrome_tbl :: "u32 list"
  callback :: nat
  callback_ctx :: nat

text \<open>
  One invocation of the bound callback: the function called, the code, the polarity and the
  context passed. The invocations of a call to \<open>dcs_decoder_process_samples\<close> are
  returned as a list, in the order they are made.
\<close>

datatype callback_call = Callback (cb_fn: nat) (cb_code: int) (cb_inverted: int) (cb_ctx: nat)

text \<open>
  The decoder as \<open>dcs_decoder_new\<close> initialises it, for a positive sample rate.
  \<open>calloc\<close> hands out zeroed memory, so \<open>build_syndrome_table\<close> starts from 2048
  zero entries.
\<close>

definition dcs_decoder_init :: "int \<Rightarrow> dcs_decoder" where
  "dcs_decoder_init sampleRate =
     \<lparr> lp_alpha = 1 - exp (- 2 * 3.14159265 * 300 / real_of_int sampleRate),
       lp_state = 0,
       lp_prev = 0,
       samples_per_bit = real_of_int sampleRate / 134.4,
       bit_phase = 0,
       bit_accum = 0,
       window_a = 0,
       window_b = 0,
       last_code = - 1,
       last_inverted = 0,
       confirm_count = 0,
       syndrome_tbl = build_syndrome_table (replicate 2048 0),
       callback = 0,
       callback_ctx = 0 \<rparr>"

text \<open>\<open>dcs_decoder_new\<close> returns \<open>NULL\<close> when the allocation fails.\<close>

definition dcs_decoder_new :: "bool \<Rightarrow> int \<Rightarrow> dcs_decoder option" where
  "dcs_decoder_new alloc_ok sampleRate =
     (if \<not> alloc_ok then None else Some (dcs_decoder_init sampleRate))"

definition dcs_decoder_set_callback :: "dcs_decoder \<Rightarrow> nat \<Rightarrow> nat \<Rightarrow> dcs_decoder" where
  "dcs_decoder_set_callback dec cb ctx = dec\<lparr>callback := cb, callback_ctx := ctx\<rparr>"

section \<open>Processing samples (dcs\_decode.cc, lines 212--292)\<close>

text \<open>Lines 257--268: the four candidates, each tried only while nothing was found.\<close>

definition decode_windows :: "dcs_decoder \<Rightarrow> (int \<times> int) option" where
  "decode_windows dec =
     (case try_decode_word (syndrome_tbl dec) (window_a dec) 0 of
        Some r \<Rightarrow> Some r
      | None \<Rightarrow>
     (case try_decode_word (syndrome_tbl dec) ((NOT (window_a dec)) AND 0x7FFFFF) 1 of
        Some r \<Rightarrow> Some r
      | None \<Rightarrow>
     (case try_decode_word (syndrome_tbl dec) (window_b dec) 0 of
        Some r \<Rightarrow> Some r
      | None \<Rightarrow>
      try_decode_word (syndrome_tbl dec) ((NOT (window_b dec)) AND 0x7FFFFF) 1)))"

text \<open>Lines 270--289: the confirmation counter and the callback.\<close>

definition confirm :: "(int \<times> int) option \<Rightarrow> dcs_decoder \<Rightarrow> dcs_decoder \<times> callback_call list" where
  "confirm found dec =
     (case found of
        Some (code, inverted) \<Rightarrow>
          if code = last_code dec \<and> inverted = last_inverted dec then
            (let dec = dec\<lparr>confirm_count := confirm_count dec + 1\<rparr>;
                 first = (if confirm_count dec = 2 \<and> callback dec \<noteq> 0
                          then [Callback (callback dec) code inverted (callback_ctx dec)] else []);
                 again = (if confirm_count dec > 2 \<and> callback dec \<noteq> 0
                          then [Callback (callback dec) code inverted (callback_ctx dec)] else [])
             in (dec, first @ again))
          else
            (dec\<lparr>last_code := code, last_inverted := inverted, confirm_count := 1\<rparr>, [])
      | None \<Rightarrow>
          (if confirm_count dec > 0 then dec\<lparr>confirm_count := confirm_count dec - 1\<rparr> else dec,
           []))"

text \<open>
  Lines 246--254: at a bit boundary the phase is reset, the bit is sliced from the
  accumulator and shifted into both windows.
\<close>

definition slice_bit :: "dcs_decoder \<Rightarrow> dcs_decoder" where
  "slice_bit dec =
     (let dec = dec\<lparr>bit_phase := bit_phase dec - samples_per_bit dec\<rparr>;
          b = (if bit_accum dec > 0 then 1 else 0) :: u32;
          dec = dec\<lparr>bit_accum := 0\<rparr>;
          dec = dec\<lparr>window_a := (drop_bit 1 (window_a dec)) OR (push_bit 22 b)\<rparr>;
          dec = dec\<lparr>window_b := ((push_bit 1 (window_b dec)) OR b) AND 0x7FFFFF\<rparr>
      in dec)"

text \<open>Lines 246--289: the whole bit boundary.\<close>

definition bit_boundary :: "dcs_decoder \<Rightarrow> dcs_decoder \<times> callback_call list" where
  "bit_boundary dec =
     (let dec = slice_bit dec
      in confirm (decode_windows dec) dec)"

text \<open>
  Lines 220--242: the low-pass filter, the nudge of the bit clock at a zero crossing, and
  the integration of one sample, with the locals \<open>alpha\<close> and \<open>one_minus_a\<close> that the
  function reads once before the loop.
\<close>

definition advance_clock :: "real \<Rightarrow> real \<Rightarrow> dcs_decoder \<Rightarrow> dcs_sample_t \<Rightarrow> dcs_decoder" where
  "advance_clock alpha one_minus_a dec x =
     (let filtered = alpha * x + one_minus_a * lp_state dec;
          dec = dec\<lparr>lp_state := filtered\<rparr>;
          dec = (if (lp_prev dec < 0) \<noteq> (filtered < 0) then
                   (let half = samples_per_bit dec * 0.5 in
                    if bit_phase dec < half
                    then dec\<lparr>bit_phase := bit_phase dec + samples_per_bit dec * 0.05\<rparr>
                    else dec\<lparr>bit_phase := bit_phase dec - samples_per_bit dec * 0.05\<rparr>)
                 else dec);
          dec = dec\<lparr>lp_prev := filtered\<rparr>;
          dec = dec\<lparr>bit_accum := bit_accum dec + filtered\<rparr>;
          dec = dec\<lparr>bit_phase := bit_phase dec + 1\<rparr>
      in dec)"

text \<open>Lines 220--290: the body of the loop for one sample.\<close>

definition process_sample ::
  "real \<Rightarrow> real \<Rightarrow> dcs_decoder \<Rightarrow> dcs_sample_t \<Rightarrow> dcs_decoder \<times> callback_call list" where
  "process_sample alpha one_minus_a dec x =
     (let dec = advance_clock alpha one_minus_a dec x
      in if bit_phase dec \<ge> samples_per_bit dec then bit_boundary dec else (dec, []))"

fun process_loop ::
  "real \<Rightarrow> real \<Rightarrow> dcs_decoder \<Rightarrow> dcs_sample_t list \<Rightarrow> dcs_decoder \<times> callback_call list" where
  "process_loop alpha one_minus_a dec [] = (dec, [])"
| "process_loop alpha one_minus_a dec (x # xs) =
     (let (dec, calls) = process_sample alpha one_minus_a dec x;
          (dec, more) = process_loop alpha one_minus_a dec xs
      in (dec, calls @ more))"

text \<open>The buffer is the list of the \<open>numSamples\<close> samples the loop reads.\<close>

definition dcs_decoder_process_samples ::
  "dcs_decoder \<Rightarrow> dcs_sample_t list \<Rightarrow> dcs_decoder \<times> callback_call list" where
  "dcs_decoder_process_samples dec samples =
     (let alpha = lp_alpha dec;
          one_minus_a = 1 - alpha
      in process_loop alpha one_minus_a dec samples)"


text \<open>
  A decoder at rest: filter, accumulator and windows are zero and the table is the one
  \<open>dcs_decoder_new\<close> builds. (Used for the behaviour on silence.)
\<close>

definition at_rest :: "dcs_decoder \<Rightarrow> bool" where
  "at_rest dec \<longleftrightarrow>
     lp_state dec = 0 \<and> lp_prev dec = 0 \<and> bit_accum dec = 0
     \<and> window_a dec = 0 \<and> window_b dec = 0
     \<and> syndrome_tbl dec = build_syndrome_table (replicate 2048 0)"

section \<open>The squelch gate (dcs\_squelch\_ff\_impl.h, lines 17--51; dcs\_squelch\_ff\_impl.cc)\<close>

text \<open>
  The gate holds a pointer to the decoder it owns (\<open>NULL\<close> when the allocation failed):
  the field is the decoder it points to, if any.
\<close>

record dcs_squelch_ff_impl =
  d_dcs_decoder :: "dcs_decoder option"
  d_target_code :: int
  d_target_inverted :: bool
  d_squelch_open :: bool
  d_tail_samples :: int
  d_tail_samples_max :: int

definition set_target_code :: "int \<Rightarrow> bool \<Rightarrow> dcs_squelch_ff_impl \<Rightarrow> dcs_squelch_ff_impl" where
  "set_target_code code inverted s =
     s\<lparr> d_target_code := code,
        d_target_inverted := inverted,
        d_squelch_open := False,
        d_tail_samples := 0 \<rparr>"

definition is_open :: "dcs_squelch_ff_impl \<Rightarrow> bool" where
  "is_open s = d_squelch_open s"

chapter \<open>Results\<close>

section \<open>The Golay code\<close>

subsection \<open>The syndrome is linear\<close>

lemma golay_step_bit:
  "golay_step i reg = (if bit reg i then reg XOR push_bit (i - 11) GOLAY_POLY else reg)"
  by (simp add: golay_step_def bit_iff_and_drop_bit_eq_1 and_one_eq)

lemma golay_step_xor: "golay_step i (a XOR b) = golay_step i a XOR golay_step i b"
  by (rule bit_eqI) (auto simp: golay_step_bit bit_xor_iff)

lemma fold_golay_step_xor:
  "fold golay_step ns (a XOR b) = fold golay_step ns a XOR fold golay_step ns b"
  by (induction ns arbitrary: a b) (simp_all add: golay_step_xor)

lemma and_xor_distrib_word: "(a XOR b) AND m = (a AND m) XOR (b AND m)" for a b m :: u32
  by (rule bit_eqI) (auto simp: bit_xor_iff bit_and_iff)

lemma golay_syndrome_xor:
  "golay_syndrome (a XOR b) = golay_syndrome a XOR golay_syndrome b"
  unfolding golay_syndrome_def and_xor_distrib_word fold_golay_step_xor ..

lemma golay_syndrome_0: "golay_syndrome 0 = 0"
  using golay_syndrome_xor [of 0 0] by simp

lemma mask23: "(0x7FFFFF :: u32) = mask 23" and mask11: "(0x7FF :: u32) = mask 11"
  by (simp_all add: mask_eq_exp_minus_1)

subsection \<open>Words below a power of two, and syndromes of short words\<close>

lemma lt_2p_iff_bits:
  fixes w :: u32
  assumes "n < 32"
  shows "w < 2 ^ n \<longleftrightarrow> (\<forall>i. bit w i \<longrightarrow> i < n)"
proof
  assume "w < 2 ^ n"
  then have e: "w AND mask n = w" by (rule less_mask_eq)
  show "\<forall>i. bit w i \<longrightarrow> i < n"
  proof (intro allI impI)
    fix i assume "bit w i"
    then have "bit (w AND mask n) i" by (simp add: e)
    then show "i < n" by (simp add: bit_and_iff bit_mask_iff)
  qed
next
  assume b: "\<forall>i. bit w i \<longrightarrow> i < n"
  have "w AND mask n = w"
    by (rule bit_eqI) (use b in \<open>auto simp: bit_and_iff bit_mask_iff\<close>)
  moreover have "w AND mask n < 2 ^ n"
    by (rule and_mask_less_size) (simp add: word_size assms)
  ultimately show "w < 2 ^ n" by simp
qed

lemma fold_golay_step_id:
  "\<forall>i \<in> set ns. \<not> bit w i \<Longrightarrow> fold golay_step ns w = w"
  by (induction ns) (simp_all add: golay_step_bit)

lemma golay_syndrome_low:
  assumes "w < 2 ^ 11" shows "golay_syndrome w = w"
proof -
  have hi: "i < 11" if "bit w i" for i
    using assms that lt_2p_iff_bits [of 11 w] by simp
  have hi': "i < 23" if "bit w i" for i
    using hi [OF that] by simp
  have m23: "w AND mask 23 = w"
    by (rule bit_eqI) (auto simp: bit_and_iff bit_mask_iff dest: hi')
  have m11: "w AND mask 11 = w"
    by (rule bit_eqI) (auto simp: bit_and_iff bit_mask_iff dest: hi)
  have "fold golay_step (rev [11..<23]) w = w"
    by (rule fold_golay_step_id) (use hi in fastforce)
  then show ?thesis
    by (simp only: golay_syndrome_def mask23 mask11 m23 m11)
qed

lemma golay_syndrome_lt: "golay_syndrome w < 2 ^ 11"
  unfolding golay_syndrome_def mask11
  by (rule and_mask_less_size) (simp add: word_size)

lemma unat_golay_syndrome_lt: "unat (golay_syndrome w) < 2048"
  using golay_syndrome_lt [of w] by (simp add: word_less_nat_alt)

subsection \<open>Hamming weight and words given by their set bits\<close>

lemma hamming_weight_card: "hamming_weight w = card {n. bit w n}"
proof -
  have "{n. bit w n} \<inter> set [0..<32] = {n. bit w n}"
    using bit_imp_le_length [of w] by auto
  then show ?thesis
    by (simp add: hamming_weight_def distinct_length_filter del: set_upt)
qed

lemma xor_eq_0_word: "a XOR b = 0 \<longleftrightarrow> a = b" for a b :: u32
proof
  assume "a XOR b = 0"
  then have "(a XOR b) XOR b = b" by simp
  then show "a = b" by (simp add: xor.assoc)
qed simp

lemma hamming_weight_0: "hamming_weight 0 = 0"
  by (simp add: hamming_weight_def)

lemma bit_push_bit_1: "bit (2 ^ n :: u32) k \<longleftrightarrow> k = n \<and> n < 32"
  by (auto simp: bit_exp_iff)

lemma bit_setbits:
  "distinct ns \<Longrightarrow> bit (setbits ns) k \<longleftrightarrow> k \<in> set ns \<and> k < 32"
  by (induction ns) (auto simp: bit_xor_iff bit_push_bit_1)

lemma setbits_append: "setbits (xs @ ys) = setbits xs XOR setbits ys"
  by (induction xs) (simp_all add: xor.assoc)

lemma word_setbits: "setbits (filter (bit w) [0..<32]) = w"
  by (rule bit_eqI) (auto simp: bit_setbits dest: bit_imp_le_length)

lemma hamming_weight_setbits:
  assumes "distinct ns" "\<forall>n \<in> set ns. n < 32"
  shows "hamming_weight (setbits ns) = length ns"
proof -
  have "{n. bit (setbits ns) n} = set ns"
    using assms by (auto simp: bit_setbits)
  then show ?thesis
    using assms(1) by (simp add: hamming_weight_card distinct_card)
qed

lemma golay_syndrome_setbits:
  "golay_syndrome (setbits ns) = xor_list (map (\<lambda>n. golay_syndrome (push_bit n 1)) ns)"
  by (induction ns) (simp_all add: golay_syndrome_0 golay_syndrome_xor)

subsection \<open>The minimum distance of the code\<close>

text \<open>
  A 23-bit word with syndrome 0 is the XOR of some of the twelve data positions and of
  the low word that equals the XOR of their syndromes. The search \<open>md\<close> over the
  choices of at most six data positions shows that its weight is at least 7 unless it is
  0. The search runs on integers in the kernel.
\<close>

lemma low_weight_le: "length (filter (bit w) [0..<11]) \<le> hamming_weight w"
proof -
  have "[0..<32] = [0..<11] @ [11..<32]"
    using upt_add_eq_append [of 0 11 21] by simp
  then show ?thesis by (simp add: hamming_weight_def)
qed

lemma md_sound:
  "md cs acc k \<Longrightarrow> subseq ys cs \<Longrightarrow> 0 < k + length ys
    \<Longrightarrow> 7 \<le> k + length ys + hamming_weight (acc XOR xor_list ys)"
proof (induction cs arbitrary: acc k ys)
  case Nil
  from Nil.prems(2) have "ys = []" by (rule list_emb_Nil2)
  with Nil low_weight_le [of acc] show ?case by simp
next
  case (Cons c cs)
  show ?case
  proof (cases ys)
    case Nil
    with Cons.prems Cons.IH [of acc k "[]"] show ?thesis by simp
  next
    case (Cons y ys')
    show ?thesis
    proof (cases "y = c")
      case True
      with Cons.prems Cons have sub: "subseq ys' cs" by simp
      show ?thesis
      proof (cases "6 \<le> k")
        case True
        then show ?thesis using Cons by simp
      next
        case False
        with Cons.prems have "md cs (acc XOR c) (Suc k)" by simp
        from Cons.IH [OF this sub] show ?thesis
          using Cons True by (simp add: xor.assoc)
      qed
    next
      case False
      with Cons.prems Cons have "subseq ys cs" by simp
      with Cons.prems Cons.IH [of acc k ys] show ?thesis by simp
    qed
  qed
qed

lemma bit_uint_fun: "bit (uint w) = bit w" for w :: u32
  by (rule ext) (auto simp: bit_uint_iff dest: bit_imp_le_length)

lemma md_int_eq: "md cs acc k = md_int (map uint cs) (uint acc) k"
  by (induction cs arbitrary: acc k)
    (simp_all add: bit_uint_fun uint_xor)

lemma golay_columns_vals:
    "golay_syndrome 2048 = 1141"
    "golay_syndrome 4096 = 1183"
    "golay_syndrome 8192 = 1355"
    "golay_syndrome 16384 = 1763"
    "golay_syndrome 32768 = 435"
    "golay_syndrome 65536 = 870"
    "golay_syndrome 131072 = 1740"
    "golay_syndrome 262144 = 493"
    "golay_syndrome 524288 = 986"
    "golay_syndrome 1048576 = 1972"
    "golay_syndrome 2097152 = 797"
    "golay_syndrome 4194304 = 1594"
  by (simp_all add: golay_syndrome_def golay_step_def GOLAY_POLY_def upt_rec_numeral)

lemma golay_columns_eq:
  "map (\<lambda>n. golay_syndrome (push_bit n 1)) [11..<23] = golay_columns"
  by (simp add: golay_columns_def golay_columns_vals upt_rec_numeral)

lemma md_int_columns:
  "md_int [1141, 1183, 1355, 1763, 435, 870, 1740, 493, 986, 1972, 797, 1594] 0 0"
  by code_simp

lemma md_columns: "md golay_columns 0 0"
proof -
  have c: "map uint golay_columns =
      [1141, 1183, 1355, 1763, 435, 870, 1740, 493, 986, 1972, 797, 1594]"
    by (simp add: golay_columns_def)
  have z: "uint (0 :: u32) = 0" by simp
  show ?thesis unfolding md_int_eq c z by (rule md_int_columns)
qed

lemma golay_min_distance:
  assumes lt: "w < 0x800000" and syn: "golay_syndrome w = 0" and nz: "w \<noteq> 0"
  shows "7 \<le> hamming_weight w"
proof -
  define lo where "lo = filter (bit w) [0..<11]"
  define hi where "hi = filter (bit w) [11..<23]"
  have bits: "i < 23" if "bit w i" for i
    using lt that lt_2p_iff_bits [of 23 w] by simp
  have split: "[0..<32] = [0..<11] @ [11..<23] @ [23..<32]"
    using upt_add_eq_append [of 0 11 21] upt_add_eq_append [of 11 23 9] by simp
  have top: "filter (bit w) [23..<32] = []"
    by (auto simp: filter_empty_conv dest: bits)
  have all: "filter (bit w) [0..<32] = lo @ hi"
    unfolding split by (simp add: lo_def hi_def top)
  have w_eq: "w = setbits lo XOR setbits hi"
    using word_setbits [of w] by (simp add: all setbits_append)
  have wt: "hamming_weight w = length lo + length hi"
    unfolding hamming_weight_def all by simp
  have dlo: "distinct lo" "\<forall>n \<in> set lo. n < 11"
    by (simp_all add: lo_def)
  have lo_small: "setbits lo < 2 ^ 11"
    by (rule lt_2p_iff_bits [of 11 "setbits lo", THEN iffD2]) (use dlo in \<open>auto simp: bit_setbits\<close>)
  have wlo: "hamming_weight (setbits lo) = length lo"
    by (rule hamming_weight_setbits) (use dlo in auto)
  have "golay_syndrome w = setbits lo XOR golay_syndrome (setbits hi)"
    by (subst w_eq) (simp add: golay_syndrome_xor golay_syndrome_low [OF lo_small])
  with syn have lo_eq: "setbits lo = xor_list (map (\<lambda>n. golay_syndrome (push_bit n 1)) hi)"
    by (simp add: golay_syndrome_setbits xor_eq_0_word)
  have hi_ne: "hi \<noteq> []"
  proof
    assume "hi = []"
    with lo_eq have "setbits lo = 0" by simp
    with wlo have "lo = []" by (simp add: hamming_weight_0)
    with \<open>hi = []\<close> w_eq nz show False by simp
  qed
  have "subseq hi [11..<23]"
    unfolding hi_def by (rule subseq_filter_left)
  then have "subseq (map (\<lambda>n. golay_syndrome (push_bit n 1)) hi) golay_columns"
    unfolding golay_columns_eq [symmetric] by (rule subseq_map)
  from md_sound [OF md_columns this] hi_ne
  have "7 \<le> length hi + hamming_weight (setbits lo)"
    by (simp add: lo_eq)
  then show ?thesis by (simp add: wt wlo)
qed

subsection \<open>Patterns of weight at most 3 have different syndromes\<close>

lemma length_filter_disj_le:
  "(\<And>x. P x \<Longrightarrow> Q x \<or> R x)
    \<Longrightarrow> length (filter P xs) \<le> length (filter Q xs) + length (filter R xs)"
  by (induction xs) auto

lemma hamming_weight_xor_le:
  "hamming_weight (a XOR b) \<le> hamming_weight a + hamming_weight b"
  unfolding hamming_weight_def
  by (rule length_filter_disj_le) (auto simp: bit_xor_iff)

lemma xor_lt_2p23:
  fixes a b :: u32
  assumes "a < 0x800000" "b < 0x800000"
  shows "a XOR b < 0x800000"
  using assms lt_2p_iff_bits [of 23 a] lt_2p_iff_bits [of 23 b]
    lt_2p_iff_bits [of 23 "a XOR b"]
  by (auto simp: bit_xor_iff)

lemma golay_syndrome_inj:
  assumes "a < 0x800000" "b < 0x800000"
    and "hamming_weight a \<le> 3" "hamming_weight b \<le> 3"
    and "golay_syndrome a = golay_syndrome b"
  shows "a = b"
proof (rule ccontr)
  assume "a \<noteq> b"
  then have nz: "a XOR b \<noteq> 0" by (simp add: xor_eq_0_word)
  have "golay_syndrome (a XOR b) = 0"
    using assms(5) by (simp add: golay_syndrome_xor)
  from golay_min_distance [OF xor_lt_2p23 [OF assms(1,2)] this nz]
  have "7 \<le> hamming_weight (a XOR b)" .
  with hamming_weight_xor_le [of a b] assms(3,4) show False by simp
qed

subsection \<open>The table: the first pattern offered to a slot stays\<close>

lemma fold_concat_map: "fold f (concat (map g xs)) = fold (\<lambda>x. fold f (g x)) xs"
  by (induction xs) simp_all

lemma fold_fill:
  "m \<le> length t \<Longrightarrow> fold (\<lambda>i t. t[i := v]) [0..<m] t = replicate m v @ drop m t"
proof (induction m)
  case 0
  then show ?case by simp
next
  case (Suc m)
  then have "(replicate m v @ drop m t)[m := v] = replicate (Suc m) v @ drop (Suc m) t"
    by (simp add: list_update_append replicate_append_same upd_conv_take_nth_drop
        flip: Cons_nth_drop_Suc)
  with Suc show ?case by simp
qed

lemma build_syndrome_table_eq:
  assumes "length tbl = 2048"
  shows "build_syndrome_table tbl =
    fold store_pattern error_patterns ((replicate 2048 GOLAY_SYN_INVALID)[0 := 0])"
proof -
  have "fold (\<lambda>i t. t[i := GOLAY_SYN_INVALID]) [0..<2048] tbl = replicate 2048 GOLAY_SYN_INVALID"
    using fold_fill [of 2048 tbl GOLAY_SYN_INVALID] assms by simp
  then show ?thesis
    by (simp add: build_syndrome_table_def error_patterns_def fold_concat_map fold_map comp_def)
qed

lemma length_store_pattern [simp]: "length (store_pattern e tbl) = length tbl"
  by (simp add: store_pattern_def Let_def)

lemma length_fold_store_pattern [simp]: "length (fold store_pattern ps tbl) = length tbl"
  by (induction ps arbitrary: tbl) simp_all

lemma store_pattern_keeps:
  "tbl ! s \<noteq> GOLAY_SYN_INVALID \<Longrightarrow> store_pattern e tbl ! s = tbl ! s"
  by (cases "s = unat (golay_syndrome e)") (auto simp: store_pattern_def Let_def)

lemma fold_store_pattern_keeps:
  "tbl ! s \<noteq> GOLAY_SYN_INVALID \<Longrightarrow> fold store_pattern ps tbl ! s = tbl ! s"
  by (induction ps arbitrary: tbl) (simp_all add: store_pattern_keeps)

lemma fold_store_pattern_first:
  assumes "e \<in> set ps"
    and "\<And>p. p \<in> set ps \<Longrightarrow> golay_syndrome p = golay_syndrome e \<Longrightarrow> p = e"
    and "tbl ! unat (golay_syndrome e) = GOLAY_SYN_INVALID"
    and "e \<noteq> GOLAY_SYN_INVALID"
    and "length tbl = 2048"
  shows "fold store_pattern ps tbl ! unat (golay_syndrome e) = e"
  using assms
proof (induction ps arbitrary: tbl)
  case Nil
  then show ?case by simp
next
  case (Cons p ps)
  let ?s = "unat (golay_syndrome e)"
  have s: "?s < length tbl"
    using unat_golay_syndrome_lt [of e] Cons.prems(5) by simp
  show ?case
  proof (cases "golay_syndrome p = golay_syndrome e")
    case True
    with Cons.prems(2) have "p = e" by simp
    with Cons.prems(3) s have "store_pattern p tbl ! ?s = e"
      by (simp add: store_pattern_def)
    with Cons.prems(4) show ?thesis
      by (simp add: fold_store_pattern_keeps)
  next
    case False
    then have ne: "unat (golay_syndrome p) \<noteq> ?s"
      by (simp add: word_unat_eq_iff)
    with Cons.prems(3) have inv: "store_pattern p tbl ! ?s = GOLAY_SYN_INVALID"
      by (simp add: store_pattern_def Let_def)
    from False Cons.prems(1) have "e \<in> set ps" by auto
    from Cons.IH [OF this _ inv Cons.prems(4)] Cons.prems(2,5)
    show ?thesis by simp
  qed
qed

subsection \<open>The patterns offered are the words of weight 1, 2 and 3\<close>

lemma lt_2p23_numeral: "(w :: u32) < 0x800000 \<longleftrightarrow> (\<forall>i. bit w i \<longrightarrow> i < 23)"
  using lt_2p_iff_bits [of 23 w] by simp

lemma in_singles:
  "p \<in> set (map (\<lambda>i. push_bit i 1) [0..<23]) \<longleftrightarrow> (\<exists>i. i < 23 \<and> p = 2 ^ i)"
  by auto

lemma in_doubles:
  "p \<in> set (concat (map (\<lambda>i. map (\<lambda>j. push_bit i 1 OR push_bit j 1) [i + 1..<23]) [0..<23]))
    \<longleftrightarrow> (\<exists>i j. i < j \<and> j < 23 \<and> p = 2 ^ i OR 2 ^ j)"
  by (fastforce simp: Suc_le_eq)

lemma in_triples:
  "p \<in> set (concat (map (\<lambda>i. concat (map (\<lambda>j. map (\<lambda>k.
          push_bit i 1 OR push_bit j 1 OR push_bit k 1) [j + 1..<23]) [i + 1..<23])) [0..<23]))
    \<longleftrightarrow> (\<exists>i j k. i < j \<and> j < k \<and> k < 23 \<and> p = 2 ^ i OR 2 ^ j OR 2 ^ k)"
  by (fastforce simp: Suc_le_eq)

lemma in_error_patterns:
  "p \<in> set error_patterns \<longleftrightarrow>
     (\<exists>i. i < 23 \<and> p = 2 ^ i)
     \<or> (\<exists>i j. i < j \<and> j < 23 \<and> p = 2 ^ i OR 2 ^ j)
     \<or> (\<exists>i j k. i < j \<and> j < k \<and> k < 23 \<and> p = 2 ^ i OR 2 ^ j OR 2 ^ k)"
  unfolding error_patterns_def set_append Un_iff in_singles in_doubles in_triples ..

lemma card_le_3: "card {i, j, k :: nat} \<le> 3"
  by (simp add: card_insert_if)

lemma error_patterns_sound:
  assumes "p \<in> set error_patterns"
  shows "p < 0x800000 \<and> hamming_weight p \<le> 3"
proof -
  from assms consider
      i where "i < 23" "p = 2 ^ i"
    | i j where "i < j" "j < 23" "p = 2 ^ i OR 2 ^ j"
    | i j k where "i < j" "j < k" "k < 23" "p = 2 ^ i OR 2 ^ j OR 2 ^ k"
    unfolding in_error_patterns by blast
  then obtain i j k where ijk: "i < 23" "j < 23" "k < 23" and bp: "{n. bit p n} = {i, j, k}"
  proof cases
    case 1
    then have "{n. bit p n} = {i, i, i}" by (auto simp: bit_push_bit_1)
    with 1 that show ?thesis by blast
  next
    case 2
    then have "{n. bit p n} = {i, j, j}" by (auto simp: bit_or_iff bit_push_bit_1)
    with 2 that [of i j j] show ?thesis by simp
  next
    case 3
    then have "{n. bit p n} = {i, j, k}" by (auto simp: bit_or_iff bit_push_bit_1)
    with 3 that [of i j k] show ?thesis by simp
  qed
  have "bit p n \<Longrightarrow> n < 23" for n
    using bp ijk by auto
  then have "p < 0x800000" by (simp add: lt_2p23_numeral)
  moreover have "hamming_weight p \<le> 3"
    using card_le_3 [of i j k] by (simp add: hamming_weight_card bp)
  ultimately show ?thesis ..
qed

lemma word_eq_setbits:
  assumes "{n. bit e n} = set l" "distinct l"
  shows "e = setbits l"
proof (rule bit_eqI)
  fix n
  have "n \<in> set l \<Longrightarrow> n < 32"
    using assms(1) bit_imp_le_length [of e n] by auto
  with assms show "bit e n \<longleftrightarrow> bit (setbits l) n"
    by (auto simp: bit_setbits)
qed

lemma error_patterns_complete:
  assumes lt: "e < 0x800000" and wt: "hamming_weight e \<le> 3" and nz: "e \<noteq> 0"
  shows "e \<in> set error_patterns"
proof -
  define B where "B = {n. bit e n}"
  define l where "l = sorted_list_of_set B"
  have fin: "finite B" unfolding B_def by simp
  have B23: "n < 23" if "n \<in> B" for n
    using lt that by (simp add: B_def lt_2p23_numeral)
  have l: "set l = B" "distinct l" "sorted l" "length l = card B"
    using fin by (simp_all add: l_def)
  have e: "e = setbits l"
    by (rule word_eq_setbits) (simp_all add: l B_def)
  have len: "length l \<le> 3" "l \<noteq> []"
    using wt nz e by (auto simp: l hamming_weight_card B_def)
  then consider i where "l = [i]" | i j where "l = [i, j]" | i j k where "l = [i, j, k]"
    by (cases l rule: list.exhaust; simp; cases "tl l"; simp; cases "tl (tl l)"; auto)
  then show ?thesis
  proof cases
    case 1
    with l(1) B23 have "i < 23" by auto
    with 1 e show ?thesis by (auto simp: in_error_patterns)
  next
    case 2
    with l B23 have ij: "i < j" "j < 23" by auto
    have "e = 2 ^ i OR 2 ^ j"
      unfolding e 2 using ij by (intro bit_eqI) (auto simp: bit_or_iff bit_xor_iff bit_push_bit_1)
    with ij show ?thesis unfolding in_error_patterns by blast
  next
    case 3
    with l B23 have ijk: "i < j" "j < k" "k < 23" by auto
    have "e = 2 ^ i OR 2 ^ j OR 2 ^ k"
      unfolding e 3 using ijk by (intro bit_eqI) (auto simp: bit_or_iff bit_xor_iff bit_push_bit_1)
    with ijk show ?thesis unfolding in_error_patterns by blast
  qed
qed

subsection \<open>What the table holds at the syndrome of a pattern\<close>

lemma table_init_0: "(replicate 2048 GOLAY_SYN_INVALID)[0 := 0] ! 0 \<noteq> GOLAY_SYN_INVALID"
  by (simp add: GOLAY_SYN_INVALID_def)

lemma table_init_invalid:
  "0 < s \<Longrightarrow> s < 2048 \<Longrightarrow> (replicate 2048 GOLAY_SYN_INVALID)[0 := 0] ! s = GOLAY_SYN_INVALID"
  by simp

lemma lt_not_invalid: "e < 0x800000 \<Longrightarrow> e \<noteq> GOLAY_SYN_INVALID"
  by (auto simp: GOLAY_SYN_INVALID_def)

lemma syndrome_nonzero:
  assumes lt: "e < 0x800000" and wt: "hamming_weight e \<le> 3" and nz: "e \<noteq> 0"
  shows "0 < unat (golay_syndrome e)"
proof -
  have "golay_syndrome e \<noteq> 0"
  proof
    assume "golay_syndrome e = 0"
    then have "golay_syndrome e = golay_syndrome 0" by (simp add: golay_syndrome_0)
    from golay_syndrome_inj [OF lt _ wt _ this] nz show False
      by (simp add: hamming_weight_0)
  qed
  then show ?thesis by (simp add: unat_gt_0)
qed

lemma error_patterns_unique:
  assumes lt: "e < 0x800000" and wt: "hamming_weight e \<le> 3"
    and p: "p \<in> set error_patterns" and eq: "golay_syndrome p = golay_syndrome e"
  shows "p = e"
proof -
  from error_patterns_sound [OF p] have plt: "p < 0x800000" and pwt: "hamming_weight p \<le> 3"
    by auto
  show ?thesis by (rule golay_syndrome_inj [OF plt lt pwt wt eq])
qed

lemma syndrome_table_lookup_0:
  assumes len: "length tbl = 2048"
  shows "build_syndrome_table tbl ! 0 = 0"
proof -
  have "fold store_pattern error_patterns ((replicate 2048 GOLAY_SYN_INVALID)[0 := 0]) ! 0
      = (replicate 2048 GOLAY_SYN_INVALID)[0 := 0] ! 0"
    using table_init_0 by (rule fold_store_pattern_keeps)
  also have "\<dots> = 0" by simp
  finally show ?thesis unfolding build_syndrome_table_eq [OF len] .
qed

lemma syndrome_table_lookup:
  assumes len: "length tbl = 2048" and lt: "e < 0x800000" and wt: "hamming_weight e \<le> 3"
  shows "build_syndrome_table tbl ! unat (golay_syndrome e) = e"
proof (cases "e = 0")
  case True
  with syndrome_table_lookup_0 [OF len] show ?thesis
    by (simp add: golay_syndrome_0)
next
  case False
  have mem: "e \<in> set error_patterns"
    by (rule error_patterns_complete [OF lt wt False])
  have inv: "(replicate 2048 GOLAY_SYN_INVALID)[0 := 0] ! unat (golay_syndrome e) = GOLAY_SYN_INVALID"
    by (rule table_init_invalid [OF syndrome_nonzero [OF lt wt False] unat_golay_syndrome_lt])
  have l: "length ((replicate 2048 GOLAY_SYN_INVALID)[0 := 0 :: u32]) = 2048" by simp
  have "fold store_pattern error_patterns ((replicate 2048 GOLAY_SYN_INVALID)[0 := 0])
      ! unat (golay_syndrome e) = e"
    using mem error_patterns_unique [OF lt wt] inv lt_not_invalid [OF lt] l
    by (rule fold_store_pattern_first)
  then show ?thesis unfolding build_syndrome_table_eq [OF len] .
qed

lemma length_build_syndrome_table:
  "length tbl = 2048 \<Longrightarrow> length (build_syndrome_table tbl) = 2048"
  by (simp add: build_syndrome_table_eq)

subsection \<open>Counting the entries by weight\<close>

lemma bits_inj: "{n. bit a n} = {n. bit b n} \<Longrightarrow> a = b" for a b :: u32
proof -
  assume "{n. bit a n} = {n. bit b n}"
  then have "bit a n = bit b n" for n by blast
  then show "a = b" by (simp add: bit_eq_iff)
qed

lemma bits_of_weight_class:
  assumes "e \<in> weight_class k"
  shows "{n. bit e n} \<subseteq> {0..<23} \<and> card {n. bit e n} = k"
proof -
  from assms have "e < 0x800000" "hamming_weight e = k"
    by (simp_all add: weight_class_def)
  then show ?thesis
    by (auto simp: lt_2p23_numeral hamming_weight_card)
qed

lemma weight_class_of_bits:
  assumes A: "A \<subseteq> {0..<23}" "card A = k"
  shows "\<exists>e \<in> weight_class k. {n. bit e n} = A"
proof -
  have fin: "finite A" using A(1) finite_subset by blast
  define l where "l = sorted_list_of_set A"
  have l: "set l = A" "distinct l" using fin by (simp_all add: l_def)
  have lt32: "n < 23" if "n \<in> A" for n using A(1) that by auto
  have lt32': "n < 32" if "n \<in> A" for n using lt32 [OF that] by simp
  have b: "{n. bit (setbits l) n} = A"
    using l lt32' by (auto simp: bit_setbits)
  have "setbits l < 0x800000"
    unfolding lt_2p23_numeral using b lt32 by blast
  moreover have "hamming_weight (setbits l) = k"
    by (simp add: hamming_weight_card b A(2))
  ultimately have "setbits l \<in> weight_class k" by (simp add: weight_class_def)
  with b show ?thesis by blast
qed

lemma card_weight_class: "card (weight_class k) = 23 choose k"
proof -
  let ?bits = "\<lambda>e :: u32. {n. bit e n}"
  have inj: "inj_on ?bits (weight_class k)"
    by (rule inj_onI) (rule bits_inj)
  have img: "?bits ` weight_class k = {A. A \<subseteq> {0..<23} \<and> card A = k}"
  proof (intro equalityI subsetI)
    fix A assume "A \<in> ?bits ` weight_class k"
    then obtain e where "e \<in> weight_class k" "A = ?bits e" by blast
    with bits_of_weight_class [of e k] show "A \<in> {A. A \<subseteq> {0..<23} \<and> card A = k}" by simp
  next
    fix A :: "nat set" assume "A \<in> {A. A \<subseteq> {0..<23} \<and> card A = k}"
    then have "A \<subseteq> {0..<23::nat}" "card A = k" by simp_all
    from weight_class_of_bits [OF this] show "A \<in> ?bits ` weight_class k" by blast
  qed
  have "card (weight_class k) = card (?bits ` weight_class k)"
    using inj by (simp add: card_image)
  also have "\<dots> = card {0..<23::nat} choose k"
    unfolding img by (rule n_subsets) simp
  finally show ?thesis by simp
qed

lemma choose_23:
  "(23::nat) choose 0 = 1" "(23::nat) choose 1 = 23"
  "(23::nat) choose 2 = 253" "(23::nat) choose 3 = 1771"
proof -
  have a: "(22::nat) choose 2 = 231" by (simp add: choose_two)
  have "Suc 22 choose Suc 2 = (Suc 22 * (22 choose 2)) div Suc 2"
    by (rule binomial_Suc_Suc_eq_times)
  then show "(23::nat) choose 3 = 1771" unfolding a by simp
qed (simp_all add: choose_two)

lemma correctable_set:
  "{e. e < 0x800000 \<and> hamming_weight e \<le> 3}
     = weight_class 0 \<union> weight_class 1 \<union> weight_class 2 \<union> weight_class 3"
  by (auto simp: weight_class_def)

lemma finite_weight_class [simp]: "finite (weight_class k)"
  by simp

lemma card_correctable: "card {e. e < 0x800000 \<and> hamming_weight e \<le> 3} = 2048"
proof -
  have "card (weight_class 0 \<union> weight_class 1) = card (weight_class 0) + card (weight_class 1)"
    by (rule card_Un_disjoint) (auto simp: weight_class_def)
  moreover have "card (weight_class 0 \<union> weight_class 1 \<union> weight_class 2)
      = card (weight_class 0 \<union> weight_class 1) + card (weight_class 2)"
    by (rule card_Un_disjoint) (auto simp: weight_class_def)
  moreover have "card (weight_class 0 \<union> weight_class 1 \<union> weight_class 2 \<union> weight_class 3)
      = card (weight_class 0 \<union> weight_class 1 \<union> weight_class 2) + card (weight_class 3)"
    by (rule card_Un_disjoint) (auto simp: weight_class_def)
  ultimately show ?thesis
    by (simp add: correctable_set card_weight_class choose_23)
qed

lemma syndrome_table_set:
  assumes len: "length tbl = 2048"
  shows "set (build_syndrome_table tbl) = {e. e < 0x800000 \<and> hamming_weight e \<le> 3}"
    and "distinct (build_syndrome_table tbl)"
proof -
  let ?T = "build_syndrome_table tbl" and ?W = "{e. e < 0x800000 \<and> hamming_weight e \<le> 3}"
  have lenT: "length ?T = 2048" by (rule length_build_syndrome_table [OF len])
  have sub: "?W \<subseteq> set ?T"
  proof
    fix e assume "e \<in> ?W"
    then have "?T ! unat (golay_syndrome e) = e"
      using syndrome_table_lookup [OF len] by simp
    moreover have "unat (golay_syndrome e) < length ?T"
      using unat_golay_syndrome_lt [of e] lenT by simp
    ultimately show "e \<in> set ?T" by (metis nth_mem)
  qed
  have "card (set ?T) \<le> 2048" using card_length [of ?T] lenT by simp
  moreover have "card ?W \<le> card (set ?T)" by (rule card_mono [OF _ sub]) simp
  ultimately have c: "card (set ?T) = card ?W" by (simp add: card_correctable)
  show "set ?T = ?W" by (rule card_subset_eq [OF _ sub c [symmetric], symmetric]) simp
  show "distinct ?T" by (rule card_distinct) (simp add: c card_correctable lenT)
qed

lemma syndrome_table_count:
  assumes len: "length tbl = 2048" and k: "k \<le> 3"
  shows "length (filter (\<lambda>e. hamming_weight e = k) (build_syndrome_table tbl)) = 23 choose k"
proof -
  have "{e. hamming_weight e = k} \<inter> set (build_syndrome_table tbl) = weight_class k"
    using k by (auto simp: syndrome_table_set(1) [OF len] weight_class_def)
  then show ?thesis
    by (simp add: distinct_length_filter [OF syndrome_table_set(2) [OF len]] card_weight_class)
qed


subsection \<open>Claims about the syndrome table\<close>

text \<open>
  C1. For every 23-bit word \<open>c\<close> with syndrome 0 and every 23-bit error pattern \<open>e\<close> of
  Hamming weight at most 3, the table built by \<open>build_syndrome_table\<close> (in an array of
  2048 entries) holds \<open>e\<close> at the syndrome of \<open>c XOR e\<close>, and adding that entry to
  \<open>c XOR e\<close> gives \<open>c\<close> back.
\<close>

theorem syndrome_table_corrects:
  assumes "length tbl = 2048"
    and "c < 2 ^ 23" and "golay_syndrome c = 0"
    and "e < 2 ^ 23" and "hamming_weight e \<le> 3"
  shows "build_syndrome_table tbl ! unat (golay_syndrome (c XOR e)) = e
    \<and> (c XOR e) XOR build_syndrome_table tbl ! unat (golay_syndrome (c XOR e)) = c"
proof -
  have s: "golay_syndrome (c XOR e) = golay_syndrome e"
    using assms(3) by (simp add: golay_syndrome_xor)
  have lt: "e < 0x800000" using assms(4) by simp
  have "build_syndrome_table tbl ! unat (golay_syndrome (c XOR e)) = e"
    unfolding s by (rule syndrome_table_lookup [OF assms(1) lt assms(5)])
  then show ?thesis by (simp add: xor.assoc)
qed

theorem syndrome_table_corrects_witness:
  "length (replicate 2048 (0 :: u32)) = 2048
   \<and> (39257 :: u32) < 2 ^ 23 \<and> golay_syndrome 39257 = 0
   \<and> (261 :: u32) < 2 ^ 23 \<and> hamming_weight 261 \<le> 3
   \<and> build_syndrome_table (replicate 2048 0) ! unat (golay_syndrome (39257 XOR 261)) = 261
   \<and> (39257 XOR 261) XOR
       build_syndrome_table (replicate 2048 0) ! unat (golay_syndrome (39257 XOR 261)) = 39257"
proof -
  have h1: "length (replicate 2048 (0 :: u32)) = 2048" by simp
  have h2: "(39257 :: u32) < 2 ^ 23" by simp
  have h3: "golay_syndrome 39257 = 0"
    by (simp add: golay_syndrome_def golay_step_def GOLAY_POLY_def upt_rec_numeral)
  have h4: "(261 :: u32) < 2 ^ 23" by simp
  have h5: "hamming_weight 261 \<le> 3"
    by code_simp
  from syndrome_table_corrects [OF h1 h2 h3 h4 h5] h1 h2 h3 h4 h5 show ?thesis
    by blast
qed

text \<open>
  C2. After \<open>build_syndrome_table\<close> (on an array of 2048 entries) none of the 2048 entries
  is the sentinel, the entry at syndrome 0 is the zero pattern, and the entries of Hamming
  weight 0, 1, 2 and 3 number 1, 23, 253 and 1771.
\<close>

theorem syndrome_table_complete:
  assumes "length tbl = 2048"
  shows "length (build_syndrome_table tbl) = 2048
    \<and> GOLAY_SYN_INVALID \<notin> set (build_syndrome_table tbl)
    \<and> build_syndrome_table tbl ! 0 = 0
    \<and> length (filter (\<lambda>e. hamming_weight e = 0) (build_syndrome_table tbl)) = 1
    \<and> length (filter (\<lambda>e. hamming_weight e = 1) (build_syndrome_table tbl)) = 23
    \<and> length (filter (\<lambda>e. hamming_weight e = 2) (build_syndrome_table tbl)) = 253
    \<and> length (filter (\<lambda>e. hamming_weight e = 3) (build_syndrome_table tbl)) = 1771"
proof -
  have "GOLAY_SYN_INVALID \<notin> set (build_syndrome_table tbl)"
    unfolding syndrome_table_set(1) [OF assms] using lt_not_invalid by blast
  then show ?thesis
    using length_build_syndrome_table [OF assms] syndrome_table_lookup_0 [OF assms]
      syndrome_table_count [OF assms, of 0] syndrome_table_count [OF assms, of 1]
      syndrome_table_count [OF assms, of 2] syndrome_table_count [OF assms, of 3]
    by (simp add: choose_23)
qed

theorem syndrome_table_complete_witness:
  "length (replicate 2048 (0 :: u32)) = 2048
   \<and> length (build_syndrome_table (replicate 2048 0)) = 2048
   \<and> GOLAY_SYN_INVALID \<notin> set (build_syndrome_table (replicate 2048 0))
   \<and> build_syndrome_table (replicate 2048 0) ! 0 = 0
   \<and> length (filter (\<lambda>e. hamming_weight e = 3) (build_syndrome_table (replicate 2048 0))) = 1771"
proof -
  have h: "length (replicate 2048 (0 :: u32)) = 2048" by simp
  from syndrome_table_complete [OF h] h show ?thesis by blast
qed

subsection \<open>Codewords have syndrome zero\<close>

lemma bit_GOLAY_POLY: "bit GOLAY_POLY j \<Longrightarrow> j < 12" and bit_GOLAY_POLY_11: "bit GOLAY_POLY 11"
proof -
  have "GOLAY_POLY < 2 ^ 12" by (simp add: GOLAY_POLY_def)
  then show "bit GOLAY_POLY j \<Longrightarrow> j < 12"
    using lt_2p_iff_bits [of 12 GOLAY_POLY] by simp
  show "bit GOLAY_POLY 11" by (simp add: GOLAY_POLY_def bit_iff_odd_drop_bit)
qed

lemma poly_long_division_fold:
  "poly_long_division n r = fold golay_step (rev [11..<11 + n]) r"
proof (induction n arbitrary: r)
  case 0
  show ?case by simp
next
  case (Suc n)
  have "[11..<Suc (11 + n)] = [11..<11 + n] @ [11 + n]"
    by (rule upt_Suc_append) simp
  then have e: "rev [11..<11 + Suc n] = (11 + n) # rev [11..<11 + n]" by simp
  show ?case
    unfolding e by (simp add: Suc.IH golay_step_bit)
qed

lemma poly_long_division_reduces:
  assumes "n \<le> 12" "\<forall>i. bit r i \<longrightarrow> i < 11 + n"
  shows "\<forall>i. bit (poly_long_division n r) i \<longrightarrow> i < 11"
  using assms
proof (induction n arbitrary: r)
  case 0
  then show ?case by simp
next
  case (Suc n)
  let ?r' = "if bit r (11 + n) then r XOR push_bit n GOLAY_POLY else r"
  have "\<forall>i. bit ?r' i \<longrightarrow> i < 11 + n"
  proof (intro allI impI)
    fix i assume b: "bit ?r' i"
    show "i < 11 + n"
    proof (cases "bit r (11 + n)")
      case False
      with b Suc.prems(2) have "i < 12 + n" "i \<noteq> 11 + n" by auto
      then show ?thesis by simp
    next
      case True
      with b have x: "bit r i \<noteq> bit (push_bit n GOLAY_POLY) i"
        by (simp add: bit_xor_iff)
      have p: "i < 12 + n" if "bit (push_bit n GOLAY_POLY) i"
        using that bit_GOLAY_POLY [of "i - n"] by (auto simp: bit_push_bit_iff)
      have top: "bit (push_bit n GOLAY_POLY) (11 + n)"
        using Suc.prems(1) bit_GOLAY_POLY_11 by (simp add: bit_push_bit_iff)
      from x p Suc.prems(2) have "i < 12 + n" by auto
      moreover from x True top have "i \<noteq> 11 + n" by auto
      ultimately show ?thesis by simp
    qed
  qed
  with Suc.IH [of ?r'] Suc.prems(1) show ?case by simp
qed

text \<open>
  C5. For every 12-bit message \<open>m\<close>, the systematic word with \<open>m\<close> in the positions 22..11
  and the remainder of the long division of \<open>m * x^11\<close> by the generator in the positions
  10..0 has syndrome 0.
\<close>

theorem golay_encode_syndrome_zero:
  assumes "m < 2 ^ 12"
  shows "golay_syndrome (golay_encode m) = 0"
proof -
  define d where "d = push_bit 11 m"
  define p where "p = poly_long_division 12 d"
  have mb: "bit m i \<Longrightarrow> i < 12" for i
    using assms lt_2p_iff_bits [of 12 m] by simp
  have db: "bit d i \<Longrightarrow> 11 \<le> i \<and> i < 23" for i
    using mb [of "i - 11"] by (auto simp: d_def bit_push_bit_iff)
  have pb: "bit p i \<Longrightarrow> i < 11" for i
    using poly_long_division_reduces [of 12 d] db by (auto simp: p_def)
  have plt: "p < 2 ^ 11"
    using pb lt_2p_iff_bits [of 11 p] by simp
  have d23: "d AND mask 23 = d"
  proof (rule bit_eqI)
    fix n show "bit (d AND mask 23) n \<longleftrightarrow> bit d n"
      using db [of n] by (auto simp: bit_and_iff bit_mask_iff)
  qed
  have p11: "p AND mask 11 = p"
  proof (rule bit_eqI)
    fix n show "bit (p AND mask 11) n \<longleftrightarrow> bit p n"
      using pb [of n] by (auto simp: bit_and_iff bit_mask_iff)
  qed
  have sd: "golay_syndrome d = p"
    unfolding golay_syndrome_def mask23 mask11 d23 p_def poly_long_division_fold
    using p11 by (simp add: p_def poly_long_division_fold)
  have "d AND p = 0"
  proof (rule bit_eqI)
    fix n show "bit (d AND p) n \<longleftrightarrow> bit (0 :: u32) n"
      using db [of n] pb [of n] by (auto simp: bit_and_iff)
  qed
  then have "d OR p = d XOR p"
    by (rule disjunctive_xor_eq_or [symmetric])
  then have "golay_syndrome (golay_encode m) = golay_syndrome d XOR golay_syndrome p"
    by (simp add: golay_encode_def d_def [symmetric] p_def [symmetric] golay_syndrome_xor)
  also have "\<dots> = 0"
    by (simp add: sd golay_syndrome_low [OF plt])
  finally show ?thesis .
qed

theorem golay_encode_syndrome_zero_witness:
  "(19 :: u32) < 2 ^ 12 \<and> golay_encode 19 = 39257 \<and> golay_syndrome (golay_encode 19) = 0"
proof -
  have h: "(19 :: u32) < 2 ^ 12" by simp
  have "golay_encode 19 = push_bit 11 19 OR fold golay_step (rev [11..<11 + 12]) (push_bit 11 19)"
    by (simp only: golay_encode_def poly_long_division_fold)
  then have e: "golay_encode 19 = 39257"
    by (simp add: golay_step_def GOLAY_POLY_def upt_rec_numeral)
  from golay_encode_syndrome_zero [OF h] h e show ?thesis by simp
qed

section \<open>Recognised codes\<close>

lemma valid_code_loop_set: "valid_code_loop vs c \<longleftrightarrow> c \<in> set vs"
  by (induction vs) auto

lemma is_valid_dcs_code_iff:
  "is_valid_dcs_code code \<longleftrightarrow> (word_of_int code :: u16) \<in> set DCS_VALID_CODES"
  by (simp add: is_valid_dcs_code_def valid_code_loop_set)

lemma DCS_VALID_CODES_length: "length DCS_VALID_CODES = 105"
  by (simp add: DCS_VALID_CODES_def)

lemma DCS_VALID_CODES_sorted: "sorted_wrt (<) (map unat DCS_VALID_CODES)"
  by (simp add: DCS_VALID_CODES_def sorted_wrt2 sorted_wrt1 del: sorted_wrt.simps)

lemma DCS_VALID_CODES_distinct: "distinct DCS_VALID_CODES"
proof -
  have "distinct (map unat DCS_VALID_CODES)"
    using DCS_VALID_CODES_sorted by (simp add: strict_sorted_iff)
  then show ?thesis by (simp add: distinct_map)
qed

lemma DCS_VALID_CODES_le_511: "list_all (\<lambda>v. v \<le> 511) DCS_VALID_CODES"
  by (simp add: DCS_VALID_CODES_def)

lemma is_valid_dcs_code_uint16:
  assumes "0 \<le> code" "code < 65536"
  shows "is_valid_dcs_code code \<longleftrightarrow> code \<in> uint ` set DCS_VALID_CODES"
proof -
  have u: "uint (word_of_int code :: u16) = code"
    using assms by (simp add: uint_word_of_int take_bit_int_eq_self)
  show ?thesis
  proof
    assume "is_valid_dcs_code code"
    then have "(word_of_int code :: u16) \<in> set DCS_VALID_CODES"
      by (simp add: is_valid_dcs_code_iff)
    then have "uint (word_of_int code :: u16) \<in> uint ` set DCS_VALID_CODES"
      by (rule imageI)
    then show "code \<in> uint ` set DCS_VALID_CODES" by (simp add: u)
  next
    assume "code \<in> uint ` set DCS_VALID_CODES"
    then obtain v where v: "v \<in> set DCS_VALID_CODES" "code = uint v" by blast
    then show "is_valid_dcs_code code" by (simp add: is_valid_dcs_code_iff)
  qed
qed

lemma recognized_set_eq:
  "{code. 0 \<le> code \<and> code < 65536 \<and> is_valid_dcs_code code} = uint ` set DCS_VALID_CODES"
proof -
  have "0 \<le> uint v \<and> uint v < 65536" for v :: u16
    using uint_lt2p [of v] by simp
  then show ?thesis
    using is_valid_dcs_code_uint16 by auto
qed

lemma recognized_set_card:
  "card {code. 0 \<le> code \<and> code < 65536 \<and> is_valid_dcs_code code} = 105"
proof -
  have "card (uint ` set DCS_VALID_CODES) = card (set DCS_VALID_CODES)"
    by (rule card_image) (simp add: inj_on_def word_uint_eq_iff)
  also have "\<dots> = 105"
    using DCS_VALID_CODES_distinct by (simp add: distinct_card DCS_VALID_CODES_length)
  finally show ?thesis by (simp add: recognized_set_eq)
qed

text \<open>
  C4, as stated, lists 23 among the members. The table holds decimal values of the octal
  designators (octal 023 is decimal 19); decimal 23 is not an entry and
  \<open>is_valid_dcs_code\<close> rejects it.
\<close>

theorem recognized_codes_23_absent:
  "\<not> is_valid_dcs_code 23 \<and> (23 :: u16) \<notin> set DCS_VALID_CODES"
  by (simp add: is_valid_dcs_code_iff DCS_VALID_CODES_def)

text \<open>
  C4 (amended). The recognised-code table has exactly 105 entries, pairwise different and
  all in [0, 511]; on the range of the \<open>uint16_t\<close> cast (which holds every 12-bit data
  value the decoder passes) \<open>is_valid_dcs_code\<close> accepts exactly the table entries, so the
  accepted set has 105 members; 19, 21, 25, 43, 114 and 265 are accepted; 23, 412 and 732
  are not.
\<close>

theorem recognized_codes_table:
  "length DCS_VALID_CODES = 105
   \<and> DCS_NUM_CODES = 105
   \<and> distinct DCS_VALID_CODES
   \<and> list_all (\<lambda>v. v \<le> 511) DCS_VALID_CODES
   \<and> {code. 0 \<le> code \<and> code < 65536 \<and> is_valid_dcs_code code} = uint ` set DCS_VALID_CODES
   \<and> card {code. 0 \<le> code \<and> code < 65536 \<and> is_valid_dcs_code code} = 105
   \<and> is_valid_dcs_code 19 \<and> is_valid_dcs_code 21 \<and> is_valid_dcs_code 25
   \<and> is_valid_dcs_code 43 \<and> is_valid_dcs_code 114 \<and> is_valid_dcs_code 265
   \<and> \<not> is_valid_dcs_code 23 \<and> \<not> is_valid_dcs_code 412 \<and> \<not> is_valid_dcs_code 732"
proof -
  have m: "is_valid_dcs_code 19" "is_valid_dcs_code 21" "is_valid_dcs_code 25"
    "is_valid_dcs_code 43" "is_valid_dcs_code 114" "is_valid_dcs_code 265"
    "\<not> is_valid_dcs_code 23" "\<not> is_valid_dcs_code 412" "\<not> is_valid_dcs_code 732"
    by (simp_all add: is_valid_dcs_code_iff DCS_VALID_CODES_def)
  show ?thesis
    using m DCS_VALID_CODES_length DCS_VALID_CODES_distinct DCS_VALID_CODES_le_511
      recognized_set_eq recognized_set_card
    by (simp add: DCS_NUM_CODES_def)
qed

section \<open>The decoder\<close>

subsection \<open>What a sample and a bit boundary leave alone\<close>

lemma confirm_fields:
  "window_a (fst (confirm found dec)) = window_a dec"
  "window_b (fst (confirm found dec)) = window_b dec"
  "lp_alpha (fst (confirm found dec)) = lp_alpha dec"
  "syndrome_tbl (fst (confirm found dec)) = syndrome_tbl dec"
  "callback (fst (confirm found dec)) = callback dec"
  "callback_ctx (fst (confirm found dec)) = callback_ctx dec"
  "lp_state (fst (confirm found dec)) = lp_state dec"
  "lp_prev (fst (confirm found dec)) = lp_prev dec"
  "bit_accum (fst (confirm found dec)) = bit_accum dec"
  "bit_phase (fst (confirm found dec)) = bit_phase dec"
  "samples_per_bit (fst (confirm found dec)) = samples_per_bit dec"
  by (simp_all add: confirm_def Let_def split: option.splits prod.splits)

lemma slice_bit_fields:
  "lp_alpha (slice_bit dec) = lp_alpha dec"
  "syndrome_tbl (slice_bit dec) = syndrome_tbl dec"
  "callback (slice_bit dec) = callback dec"
  "callback_ctx (slice_bit dec) = callback_ctx dec"
  "lp_state (slice_bit dec) = lp_state dec"
  "lp_prev (slice_bit dec) = lp_prev dec"
  "samples_per_bit (slice_bit dec) = samples_per_bit dec"
  "bit_accum (slice_bit dec) = 0"
  "last_code (slice_bit dec) = last_code dec"
  "last_inverted (slice_bit dec) = last_inverted dec"
  "confirm_count (slice_bit dec) = confirm_count dec"
  "bit_phase (slice_bit dec) = bit_phase dec - samples_per_bit dec"
  "window_a (slice_bit dec) =
     (drop_bit 1 (window_a dec)) OR (push_bit 22 (if bit_accum dec > 0 then 1 else 0))"
  "window_b (slice_bit dec) =
     ((push_bit 1 (window_b dec)) OR (if bit_accum dec > 0 then 1 else 0)) AND 0x7FFFFF"
  by (simp_all add: slice_bit_def Let_def)

lemma bit_boundary_fields:
  "lp_alpha (fst (bit_boundary dec)) = lp_alpha dec"
  "syndrome_tbl (fst (bit_boundary dec)) = syndrome_tbl dec"
  "callback (fst (bit_boundary dec)) = callback dec"
  "callback_ctx (fst (bit_boundary dec)) = callback_ctx dec"
  "lp_state (fst (bit_boundary dec)) = lp_state dec"
  "lp_prev (fst (bit_boundary dec)) = lp_prev dec"
  "samples_per_bit (fst (bit_boundary dec)) = samples_per_bit dec"
  "bit_accum (fst (bit_boundary dec)) = 0"
  by (simp_all add: bit_boundary_def Let_def confirm_fields slice_bit_fields)

lemma bit_boundary_windows:
  "window_a (fst (bit_boundary dec)) =
     (drop_bit 1 (window_a dec)) OR (push_bit 22 (if bit_accum dec > 0 then 1 else 0))"
  "window_b (fst (bit_boundary dec)) =
     ((push_bit 1 (window_b dec)) OR (if bit_accum dec > 0 then 1 else 0)) AND 0x7FFFFF"
  by (simp_all add: bit_boundary_def Let_def confirm_fields slice_bit_fields)

lemma advance_clock_fields:
  "lp_alpha (advance_clock a b dec x) = lp_alpha dec"
  "syndrome_tbl (advance_clock a b dec x) = syndrome_tbl dec"
  "callback (advance_clock a b dec x) = callback dec"
  "callback_ctx (advance_clock a b dec x) = callback_ctx dec"
  "samples_per_bit (advance_clock a b dec x) = samples_per_bit dec"
  "window_a (advance_clock a b dec x) = window_a dec"
  "window_b (advance_clock a b dec x) = window_b dec"
  "last_code (advance_clock a b dec x) = last_code dec"
  "last_inverted (advance_clock a b dec x) = last_inverted dec"
  "confirm_count (advance_clock a b dec x) = confirm_count dec"
  by (simp_all add: advance_clock_def Let_def)

lemma process_sample_fields:
  "lp_alpha (fst (process_sample a b dec x)) = lp_alpha dec"
  "syndrome_tbl (fst (process_sample a b dec x)) = syndrome_tbl dec"
  "callback (fst (process_sample a b dec x)) = callback dec"
  "callback_ctx (fst (process_sample a b dec x)) = callback_ctx dec"
  "samples_per_bit (fst (process_sample a b dec x)) = samples_per_bit dec"
  by (simp_all add: process_sample_def Let_def bit_boundary_fields advance_clock_fields)

lemma process_loop_invariant:
  assumes "\<And>d x. P d \<Longrightarrow> P (fst (process_sample a b d x))" and "P dec"
  shows "P (fst (process_loop a b dec xs))"
  using assms(2)
proof (induction xs arbitrary: dec)
  case Nil
  then show ?case by simp
next
  case (Cons x xs)
  from Cons.IH [OF assms(1) [OF Cons.prems]] show ?case
    by (simp add: split_beta)
qed

lemma process_loop_lp_alpha: "lp_alpha (fst (process_loop a b dec xs)) = lp_alpha dec"
  by (rule process_loop_invariant [where P = "\<lambda>d. lp_alpha d = lp_alpha dec"])
    (simp_all add: process_sample_fields)

subsection \<open>Buffers can be split\<close>

lemma process_loop_append:
  "process_loop a b dec (xs @ ys) =
     (let (dec1, calls1) = process_loop a b dec xs;
          (dec2, calls2) = process_loop a b dec1 ys
      in (dec2, calls1 @ calls2))"
  by (induction xs arbitrary: dec) (simp_all add: split_beta)

text \<open>
  C10. Processing \<open>s1\<close> and then \<open>s2\<close> with two calls gives the same final decoder and
  the same callback invocations, in the same order, as processing \<open>s1 @ s2\<close> with one
  call; a call with no samples changes nothing and invokes nothing.
\<close>

theorem process_samples_append:
  "dcs_decoder_process_samples dec (s1 @ s2) =
     (let (dec1, calls1) = dcs_decoder_process_samples dec s1;
          (dec2, calls2) = dcs_decoder_process_samples dec1 s2
      in (dec2, calls1 @ calls2))
   \<and> dcs_decoder_process_samples dec [] = (dec, [])"
proof -
  have "lp_alpha (fst (process_loop (lp_alpha dec) (1 - lp_alpha dec) dec s1)) = lp_alpha dec"
    by (rule process_loop_lp_alpha)
  then show ?thesis
    by (simp add: dcs_decoder_process_samples_def process_loop_append split_beta Let_def)
qed

subsection \<open>The squelch gate\<close>

text \<open>
  C9. \<open>set_target_code\<close> stores the target pair, closes the gate and zeroes the tail
  counter; the decoder the gate owns, with every field of it, and the tail length are
  what they were.
\<close>

theorem set_target_code_frame:
  "d_target_code (set_target_code code inverted s) = code
   \<and> d_target_inverted (set_target_code code inverted s) = inverted
   \<and> d_squelch_open (set_target_code code inverted s) = False
   \<and> is_open (set_target_code code inverted s) = False
   \<and> d_tail_samples (set_target_code code inverted s) = 0
   \<and> d_dcs_decoder (set_target_code code inverted s) = d_dcs_decoder s
   \<and> d_tail_samples_max (set_target_code code inverted s) = d_tail_samples_max s"
  by (simp add: set_target_code_def is_open_def)


subsection \<open>The confirmation layer\<close>









subsection \<open>The windows\<close>











subsection \<open>Silence\<close>

lemma golay_syndrome_all_ones: "golay_syndrome 0x7FFFFF = 0"
  by (simp add: golay_syndrome_def golay_step_def GOLAY_POLY_def upt_rec_numeral)

lemma not_valid_0: "\<not> is_valid_dcs_code 0"
  by (simp add: is_valid_dcs_code_iff DCS_VALID_CODES_def)

lemma try_decode_word_zero:
  assumes "tbl ! 0 = 0"
  shows "try_decode_word tbl 0 pol = None"
  using assms not_valid_0 by (simp add: try_decode_word_def golay_syndrome_0 Let_def)

lemma try_decode_word_ones:
  assumes "tbl ! 0 = 0"
  shows "try_decode_word tbl 0x7FFFFF pol = None"
  using assms by (simp add: try_decode_word_def golay_syndrome_all_ones Let_def)

lemma decode_windows_at_rest:
  assumes "at_rest dec"
  shows "decode_windows dec = None"
proof -
  have t: "syndrome_tbl dec ! 0 = 0"
    using assms syndrome_table_lookup_0 [of "replicate 2048 0"] by (simp add: at_rest_def)
  have w: "window_a dec = 0" "window_b dec = 0"
    using assms by (simp_all add: at_rest_def)
  have n: "(NOT (0 :: u32)) AND 0x7FFFFF = 0x7FFFFF" by simp
  show ?thesis
    unfolding decode_windows_def w n
    by (simp add: try_decode_word_zero [OF t] try_decode_word_ones [OF t])
qed

lemma slice_bit_at_rest:
  assumes "at_rest dec"
  shows "at_rest (slice_bit dec)"
  using assms by (simp add: at_rest_def slice_bit_fields)

lemma bit_boundary_at_rest:
  assumes "at_rest dec"
  shows "at_rest (fst (bit_boundary dec)) \<and> snd (bit_boundary dec) = []"
proof -
  have r: "at_rest (slice_bit dec)" by (rule slice_bit_at_rest [OF assms])
  have "bit_boundary dec = confirm None (slice_bit dec)"
    by (simp add: bit_boundary_def Let_def decode_windows_at_rest [OF r])
  moreover have "snd (confirm None d) = []" for d
    by (simp add: confirm_def)
  moreover have "at_rest (fst (confirm None (slice_bit dec)))"
    using r by (simp add: at_rest_def confirm_fields)
  ultimately show ?thesis by simp
qed

lemma advance_clock_at_rest:
  assumes "at_rest dec"
  shows "at_rest (advance_clock a b dec 0)"
  using assms by (simp add: at_rest_def advance_clock_def Let_def)

lemma process_sample_at_rest:
  assumes "at_rest dec"
  shows "at_rest (fst (process_sample a b dec 0)) \<and> snd (process_sample a b dec 0) = []"
proof -
  have r: "at_rest (advance_clock a b dec 0)" by (rule advance_clock_at_rest [OF assms])
  from r bit_boundary_at_rest [OF r] show ?thesis
    by (simp add: process_sample_def Let_def)
qed

lemma process_loop_at_rest:
  assumes "at_rest dec"
  shows "snd (process_loop a b dec (replicate n 0)) = []"
  using assms
proof (induction n arbitrary: dec)
  case 0
  show ?case by simp
next
  case (Suc n)
  from process_sample_at_rest [OF Suc.prems, of a b]
  have "at_rest (fst (process_sample a b dec 0))" "snd (process_sample a b dec 0) = []"
    by simp_all
  with Suc.IH [of "fst (process_sample a b dec 0)"] show ?case
    by (simp add: split_beta)
qed

text \<open>
  C6. A decoder fresh from \<open>dcs_decoder_new\<close>, for any sample rate, with any callback
  bound, fed any number of samples that are all 0.0, invokes the callback zero times.
\<close>

theorem silence_no_callbacks:
  "snd (dcs_decoder_process_samples
      (dcs_decoder_set_callback (dcs_decoder_init sampleRate) cb ctx) (replicate n 0)) = []"
proof -
  have "at_rest (dcs_decoder_set_callback (dcs_decoder_init sampleRate) cb ctx)"
    by (simp add: at_rest_def dcs_decoder_set_callback_def dcs_decoder_init_def)
  then show ?thesis
    unfolding dcs_decoder_process_samples_def Let_def by (rule process_loop_at_rest)
qed


subsection \<open>The bit clock in exact arithmetic\<close>

text \<open>
  The phase of the bit clock is a \<open>float\<close> in the source. With real numbers in its place,
  and \<open>samples_per_bit\<close> at least 2, a phase in \<open>[0, samples_per_bit)\<close> before a
  sample is in \<open>[0, samples_per_bit + 1)\<close> after the nudge and the increment, and back in
  \<open>[0, samples_per_bit)\<close> after the sample, whether or not a bit boundary was taken. This
  is a property of the exact clock only: the rounding of the single-precision operations
  is not part of the model.
\<close>

lemma advance_clock_bit_phase:
  assumes "2 \<le> samples_per_bit dec" "0 \<le> bit_phase dec" "bit_phase dec < samples_per_bit dec"
  shows "0 \<le> bit_phase (advance_clock a b dec x)"
    and "bit_phase (advance_clock a b dec x) < samples_per_bit dec + 1"
  using assms by (auto simp: advance_clock_def Let_def)

lemma slice_bit_bit_phase:
  assumes "2 \<le> samples_per_bit dec"
    and "samples_per_bit dec \<le> bit_phase dec" "bit_phase dec < samples_per_bit dec + 1"
  shows "0 \<le> bit_phase (slice_bit dec)" and "bit_phase (slice_bit dec) < samples_per_bit dec"
  using assms by (simp_all add: slice_bit_fields)

lemma process_sample_bit_phase:
  assumes "2 \<le> samples_per_bit dec" "0 \<le> bit_phase dec" "bit_phase dec < samples_per_bit dec"
  shows "0 \<le> bit_phase (fst (process_sample a b dec x))"
    and "bit_phase (fst (process_sample a b dec x)) < samples_per_bit dec"
proof -
  let ?d = "advance_clock a b dec x"
  have s: "samples_per_bit ?d = samples_per_bit dec" by (simp add: advance_clock_fields)
  note c = advance_clock_bit_phase [OF assms, of a b x]
  have "0 \<le> bit_phase (fst (process_sample a b dec x))
      \<and> bit_phase (fst (process_sample a b dec x)) < samples_per_bit dec"
  proof (cases "bit_phase ?d \<ge> samples_per_bit ?d")
    case True
    then have "fst (process_sample a b dec x) = fst (confirm (decode_windows (slice_bit ?d)) (slice_bit ?d))"
      by (simp add: process_sample_def Let_def bit_boundary_def)
    with slice_bit_bit_phase [of ?d] True c assms(1) show ?thesis
      by (simp add: s confirm_fields)
  next
    case False
    then show ?thesis
      using c by (simp add: process_sample_def Let_def s)
  qed
  then show "0 \<le> bit_phase (fst (process_sample a b dec x))"
    and "bit_phase (fst (process_sample a b dec x)) < samples_per_bit dec" by simp_all
qed


end
